theory Spec2Isabelle
  imports Main
begin

section \<open>The closure bridge of gi/closure.c\<close>

text \<open>
  A shallow embedding of \<^verbatim>\<open>gi/closure.c\<close>: the \<^verbatim>\<open>Closure\<close> struct, the three
  static helpers \<^verbatim>\<open>invalidate_js_pointers\<close>, \<^verbatim>\<open>global_context_finalized\<close>,
  \<^verbatim>\<open>check_context_valid\<close>, the invalidate notifier \<^verbatim>\<open>closure_invalidated\<close> and
  the exported functions. One bridge is followed through a world that holds its storage
  and the parts of GLib and of the JavaScript engine the bridge talks to. Pointers are
  options (\<open>None\<close> is \<^verbatim>\<open>NULL\<close>); every call that leaves the file is recorded in a
  trace, in the order the C code makes it.
\<close>

subsection \<open>Data\<close>

type_synonym JSRuntime = nat
type_synonym JSContext = nat
type_synonym JSObject = nat
type_synonym jsval = int
type_synonym jsexn = nat

text \<open>The two fields of GLib's \<^verbatim>\<open>GClosure\<close> that the bridge depends on.\<close>

record GClosure =
  ref_count :: nat
  is_invalid :: bool

text \<open>
  \<^verbatim>\<open>typedef struct { GClosure base; JSRuntime *runtime; JSContext *context;
  JSObject *obj; guint unref_on_global_object_finalized : 1; } Closure;\<close>
  The struct starts with its \<^verbatim>\<open>GClosure\<close>, so it is a record extension. The field
  \<^verbatim>\<open>context\<close> is written \<open>context'\<close>.
\<close>

record Closure = GClosure +
  runtime :: "JSRuntime option"
  context' :: "JSContext option"
  obj :: "JSObject option"
  unref_on_global_object_finalized :: bool

text \<open>
  What the engine's call primitive does with a callable: it returns a value or fails, and
  in both cases it may leave an exception pending on the context.
\<close>

datatype call_outcome = Returned jsval "jsexn option" | Failed "jsexn option"

datatype event =
    TripleCleared
  | InvalidateNotify "JSRuntime option" "JSContext option" "JSObject option"
  | ContextWalk JSRuntime
  | KeepAliveAdd JSContext JSObject
  | KeepAliveRemove "JSContext option" "JSObject option"
  | BeginRequest JSContext
  | EndRequest JSContext
  | CallFunction JSContext JSObject nat "jsval list"
  | LogException JSContext jsexn
  | PushArguments JSContext
  | PopArguments JSContext
  | AddRoot JSContext
  | RemoveRoot JSContext
  | ClosureFinalized
  | UseAfterFree
  | Aborted

datatype fault = NullContext | AssertFailed

text \<open>
  The world: the bridge's storage (\<open>closure\<close>, released once \<open>freed\<close>), the live
  contexts of every runtime in the order \<^verbatim>\<open>JS_ContextIterator\<close> walks them, the
  runtime of every context (\<^verbatim>\<open>JS_GetRuntime\<close>), the pending entries of the
  keep-alive registry whose data is this bridge, the pending-exception slot of every
  context, the behaviour of every callable, the live-closure counter and the trace.
\<close>

record world =
  closure :: Closure
  freed :: bool
  live_contexts :: "JSRuntime \<Rightarrow> JSContext list"
  runtime_of :: "JSContext \<Rightarrow> JSRuntime"
  keep_alive :: "(JSContext \<times> JSObject) list"
  pending :: "JSContext \<Rightarrow> jsexn option"
  behaviour :: "JSObject \<Rightarrow> nat \<Rightarrow> jsval list \<Rightarrow> call_outcome"
  closure_counter :: int
  trace :: "event list"

definition emit :: "event \<Rightarrow> world \<Rightarrow> world" where
  "emit e w = w\<lparr>trace := trace w @ [e]\<rparr>"

subsection \<open>GLib and the keep-alive registry\<close>

text \<open>
  Modelled from the spec: GLib's \<^verbatim>\<open>g_closure_ref\<close> is not under src/; section 4.1
  calls ref and unref ordinary refcount operations.
\<close>

definition g_closure_ref :: "world \<Rightarrow> world" where
  "g_closure_ref w = w\<lparr>closure := (closure w)\<lparr>ref_count := ref_count (closure w) + 1\<rparr>\<rparr>"

text \<open>\<^verbatim>\<open>closure_finalized\<close>, the finalize notifier: \<^verbatim>\<open>GJS_DEC_COUNTER(closure)\<close>.\<close>

definition closure_finalized :: "world \<Rightarrow> world" where
  "closure_finalized w = w\<lparr>closure_counter := closure_counter w - 1\<rparr>"

text \<open>
  Modelled from the spec: the second half of GLib's \<^verbatim>\<open>g_closure_unref\<close>, which is
  not under src/. The count is decremented; at zero the finalize notifier runs and the
  storage is released (section 4.1: unref to zero transitions to Finalized and releases
  storage).
\<close>

definition closure_release :: "world \<Rightarrow> world" where
  "closure_release w =
     (let w1 = w\<lparr>closure := (closure w)\<lparr>ref_count := ref_count (closure w) - 1\<rparr>\<rparr>
      in if ref_count (closure w1) = 0
         then emit ClosureFinalized ((closure_finalized w1)\<lparr>freed := True\<rparr>)
         else w1)"

text \<open>
  Modelled from the spec: \<^verbatim>\<open>gjs_keep_alive_remove_global_child\<close> lives in
  gi/keep-alive.c, which is not under src/. Section 4.2: remove takes a pending
  registration away before it fires, and removing an entry that is not pending is a
  no-op. A \<^verbatim>\<open>NULL\<close> context or object names no entry.
\<close>

definition gjs_keep_alive_remove_global_child ::
    "JSContext option \<Rightarrow> JSObject option \<Rightarrow> world \<Rightarrow> world" where
  "gjs_keep_alive_remove_global_child cx ob w =
     (let w1 = emit (KeepAliveRemove cx ob) w
      in case (cx, ob) of
           (Some c, Some f) \<Rightarrow> w1\<lparr>keep_alive := remove1 (c, f) (keep_alive w1)\<rparr>
         | _ \<Rightarrow> w1)"

text \<open>
  Modelled from the spec: \<^verbatim>\<open>gjs_keep_alive_add_global_child\<close> (gi/keep-alive.c, not
  under src/). Section 4.2: add registers the pair (notifier, watched) with its data.
\<close>

definition gjs_keep_alive_add_global_child :: "JSContext \<Rightarrow> JSObject \<Rightarrow> world \<Rightarrow> world" where
  "gjs_keep_alive_add_global_child c f w =
     (emit (KeepAliveAdd c f) w)\<lparr>keep_alive := keep_alive w @ [(c, f)]\<rparr>"

subsection \<open>The liveness walk\<close>

text \<open>
  The loop of \<^verbatim>\<open>check_context_valid\<close>:
  \<^verbatim>\<open>while ((a_context = JS_ContextIterator(c->runtime, &iter)) != NULL)
    if (a_context == c->context) return;\<close>
  over the contexts the iterator yields; \<open>True\<close> is the early return.
\<close>

fun context_iterator_finds :: "JSContext list \<Rightarrow> JSContext option \<Rightarrow> bool" where
  "context_iterator_finds [] c = False"
| "context_iterator_finds (a_context # iter) c =
     (if Some a_context = c then True else context_iterator_finds iter c)"

subsection \<open>Invalidation\<close>

text \<open>
  \<^verbatim>\<open>c->obj = NULL; c->context = NULL; c->runtime = NULL;\<close> The three stores follow
  each other with no call between them, in \<^verbatim>\<open>invalidate_js_pointers\<close> and at the
  end of \<^verbatim>\<open>closure_invalidated\<close>; the trace records them as one event.
\<close>

definition clear_triple :: "world \<Rightarrow> world" where
  "clear_triple w =
     emit TripleCleared (w\<lparr>closure := (closure w)\<lparr>obj := None, context' := None, runtime := None\<rparr>\<rparr>)"

definition mark_invalid :: "world \<Rightarrow> world" where
  "mark_invalid w = w\<lparr>closure := (closure w)\<lparr>is_invalid := True\<rparr>\<rparr>"

definition notify_listeners :: "world \<Rightarrow> world" where
  "notify_listeners w =
     emit (InvalidateNotify (runtime (closure w)) (context' (closure w)) (obj (closure w))) w"

text \<open>
  The four functions call each other in the source: \<^verbatim>\<open>invalidate_js_pointers\<close>
  calls GLib's \<^verbatim>\<open>g_closure_invalidate\<close>, which runs the invalidate notifier
  \<^verbatim>\<open>closure_invalidated\<close>, which calls \<^verbatim>\<open>check_context_valid\<close>, which calls
  \<^verbatim>\<open>invalidate_js_pointers\<close>. The recursion ends because GLib marks the closure
  invalid before it runs the notifiers and does nothing on a closure that is marked.
\<close>

text \<open>
  Modelled from the spec: \<^verbatim>\<open>g_closure_invalidate\<close>, the last of the four, is GLib's
  and not under src/. Section 4.1 has the notifications of an invalidation sent once: a
  closure already marked invalid is left alone; otherwise GLib holds a reference of its
  own, marks the closure, runs the invalidate notifiers and drops its reference.
  \<open>notify_listeners\<close> records the moment the notification fires, with the triple as it
  is then: what the bridge's own notifier \<^verbatim>\<open>closure_invalidated\<close>, and any notifier
  GLib runs before it, reads.
\<close>

function invalidate_js_pointers :: "world \<Rightarrow> world"
  and check_context_valid :: "world \<Rightarrow> world"
  and closure_invalidated :: "world \<Rightarrow> world"
  and g_closure_invalidate :: "world \<Rightarrow> world"
where
  "invalidate_js_pointers w =
     (if obj (closure w) = None then w
      else g_closure_invalidate (clear_triple w))"
| "check_context_valid w =
     (case runtime (closure w) of
        None \<Rightarrow> w
      | Some rt \<Rightarrow>
          if context_iterator_finds (live_contexts w rt) (context' (closure w))
          then emit (ContextWalk rt) w
          else invalidate_js_pointers (emit (ContextWalk rt) w))"
| "closure_invalidated w =
     (if obj (closure w) = None then w
      else
        let w1 = check_context_valid w
        in if obj (closure w1) = None
           then g_closure_ref
                  (w1\<lparr>closure := (closure w1)\<lparr>unref_on_global_object_finalized := True\<rparr>\<rparr>)
           else
             let w2 = gjs_keep_alive_remove_global_child
                        (context' (closure w1)) (obj (closure w1)) w1
             in clear_triple w2)"
| "g_closure_invalidate w =
     (if is_invalid (closure w) then w
      else closure_release
             (closure_invalidated (notify_listeners (mark_invalid (g_closure_ref w)))))"
  by pat_completeness auto
termination
  by (relation "measure (\<lambda>x. case x of
        Inl (Inl w) \<Rightarrow> (if is_invalid (closure w) then 0 else 10) + 2
      | Inl (Inr w) \<Rightarrow> (if is_invalid (closure w) then 0 else 10) + 3
      | Inr (Inl w) \<Rightarrow> (if is_invalid (closure w) then 0 else 10) + 4
      | Inr (Inr w) \<Rightarrow> (if is_invalid (closure w) then 0 else 10) + 1)")
    (auto simp: clear_triple_def emit_def mark_invalid_def notify_listeners_def g_closure_ref_def)

declare invalidate_js_pointers.simps [simp del]
declare check_context_valid.simps [simp del]
declare closure_invalidated.simps [simp del]
declare g_closure_invalidate.simps [simp del]

text \<open>
  Modelled from the spec: GLib's \<^verbatim>\<open>g_closure_unref\<close> is not under src/. Section
  4.1: unref to zero triggers the invalidate protocol if the bridge is not invalidated
  yet, then finalizes and releases the storage. GLib refuses a closure whose count is
  already zero (\<^verbatim>\<open>g_return_if_fail (closure->ref_count > 0)\<close>).
\<close>

definition g_closure_unref :: "world \<Rightarrow> world" where
  "g_closure_unref w =
     (if ref_count (closure w) = 0 then w
      else closure_release
             (if ref_count (closure w) = 1 then g_closure_invalidate w else w))"

text \<open>
  \<^verbatim>\<open>global_context_finalized(JSObject *obj, void *data)\<close>, the notifier the keep-alive
  registry calls when the context's global object is finalized. \<^verbatim>\<open>g_assert\<close> aborts
  the process, which is the fault \<open>AssertFailed\<close>.
\<close>

definition global_context_finalized :: "JSObject \<Rightarrow> world \<Rightarrow> fault + world" where
  "global_context_finalized ob w =
     (let need_unref = unref_on_global_object_finalized (closure w);
          w1 = w\<lparr>closure := (closure w)\<lparr>unref_on_global_object_finalized := False\<rparr>\<rparr>
      in if obj (closure w1) \<noteq> None \<and> obj (closure w1) \<noteq> Some ob then Inl AssertFailed
         else
           let w2 = (if obj (closure w1) \<noteq> None then invalidate_js_pointers w1 else w1)
           in Inr (if need_unref then g_closure_unref w2 else w2))"

subsection \<open>The engine\<close>

text \<open>
  \<^verbatim>\<open>JS_BeginRequest\<close>, \<^verbatim>\<open>JS_EndRequest\<close> and \<^verbatim>\<open>JS_IsExceptionPending\<close> belong
  to the engine; the bridge only brackets its calls with them and reads the
  pending-exception slot.
\<close>

definition JS_BeginRequest :: "JSContext \<Rightarrow> world \<Rightarrow> world" where
  "JS_BeginRequest cx w = emit (BeginRequest cx) w"

definition JS_EndRequest :: "JSContext \<Rightarrow> world \<Rightarrow> world" where
  "JS_EndRequest cx w = emit (EndRequest cx) w"

definition JS_IsExceptionPending :: "JSContext \<Rightarrow> world \<Rightarrow> bool" where
  "JS_IsExceptionPending cx w = (pending w cx \<noteq> None)"

text \<open>
  Modelled from the spec: \<^verbatim>\<open>gjs_log_exception\<close> lives in gjs/jsapi-util.c, which is
  not under src/. Sections 6 and 8: the engine offers \<^verbatim>\<open>pending_exception\<close> and
  \<^verbatim>\<open>clear_exception\<close>, a reported exception leaves the slot clear. The function
  returns whether there was an exception to report.
\<close>

definition gjs_log_exception :: "JSContext \<Rightarrow> world \<Rightarrow> bool \<times> world" where
  "gjs_log_exception cx w =
     (case pending w cx of
        None \<Rightarrow> (False, w)
      | Some e \<Rightarrow> (True, emit (LogException cx e) (w\<lparr>pending := (pending w)(cx := None)\<rparr>)))"

text \<open>
  Modelled from the spec: \<^verbatim>\<open>gjs_call_function_value\<close> lives in gjs/jsapi-util.c,
  which is not under src/. Section 6:
  \<^verbatim>\<open>engine.invoke_callable(context, callable, args[]) -> (value, exception|none)\<close>.
  The result is the success flag, the content of \<^verbatim>\<open>*retval\<close> afterwards (written
  only when the call returns a value) and the world, in which an exception the callable
  raised is pending. What the callable does to the bridge itself while it runs is not
  modelled.
\<close>

definition gjs_call_function_value ::
    "JSContext \<Rightarrow> JSObject \<Rightarrow> nat \<Rightarrow> jsval list \<Rightarrow> jsval \<Rightarrow> world \<Rightarrow> bool \<times> jsval \<times> world" where
  "gjs_call_function_value cx f argc argv retval w =
     (let w1 = emit (CallFunction cx f argc argv) w;
          raise = (\<lambda>e. case e of None \<Rightarrow> w1 | Some x \<Rightarrow> w1\<lparr>pending := (pending w1)(cx := Some x)\<rparr>)
      in case behaviour w f argc argv of
           Returned v e \<Rightarrow> (True, v, raise e)
         | Failed e \<Rightarrow> (False, retval, raise e))"

subsection \<open>The exported functions\<close>

text \<open>
  \<^verbatim>\<open>void gjs_closure_invoke(GClosure *closure, int argc, jsval *argv, jsval *retval)\<close>.
  The result is the content of \<^verbatim>\<open>*retval\<close> when the function returns, and the world.
  With a callable but no context the C code hands \<^verbatim>\<open>NULL\<close> to
  \<^verbatim>\<open>JS_BeginRequest\<close>; that is the fault \<open>NullContext\<close>.
\<close>

definition gjs_closure_invoke ::
    "nat \<Rightarrow> jsval list \<Rightarrow> jsval \<Rightarrow> world \<Rightarrow> fault + (jsval \<times> world)" where
  "gjs_closure_invoke argc argv retval w =
     (let w1 = check_context_valid w;
          context = context' (closure w1)
      in case obj (closure w1) of
           None \<Rightarrow> Inr (retval, w1\<lparr>closure := (closure w1)\<lparr>context' := None\<rparr>\<rparr>)
         | Some f \<Rightarrow>
            (case context of
               None \<Rightarrow> Inl NullContext
             | Some cx \<Rightarrow>
                 let w2 = JS_BeginRequest cx w1;
                     w3 = (if JS_IsExceptionPending cx w2 then snd (gjs_log_exception cx w2) else w2);
                     (ok, rv, w4) = gjs_call_function_value cx f argc argv retval w3
                 in if \<not> ok
                    then (let (logged, w5) = gjs_log_exception cx w4
                          in Inr (rv, JS_EndRequest cx w5))
                    else (let (logged, w5) = gjs_log_exception cx w4
                          in Inr (rv, JS_EndRequest cx w5))))"

text \<open>
  The two loops of \<^verbatim>\<open>gjs_closure_invoke_simple\<close>,
  \<^verbatim>\<open>for (i = 0; i < argc; i++) JS_AddRoot(context, &argv[i]);\<close> and its mirror.
\<close>

fun add_roots :: "nat \<Rightarrow> JSContext \<Rightarrow> world \<Rightarrow> world" where
  "add_roots 0 cx w = w"
| "add_roots (Suc n) cx w = add_roots n cx (emit (AddRoot cx) w)"

fun remove_roots :: "nat \<Rightarrow> JSContext \<Rightarrow> world \<Rightarrow> world" where
  "remove_roots 0 cx w = w"
| "remove_roots (Suc n) cx w = remove_roots n cx (emit (RemoveRoot cx) w)"

text \<open>
  \<^verbatim>\<open>gboolean gjs_closure_invoke_simple(JSContext *context, GClosure *closure,
  jsval *retval, const gchar *format, ...)\<close>. \<open>pushed\<close> is what the engine's
  \<^verbatim>\<open>JS_PushArgumentsVA\<close> makes of the format and the variable arguments: \<open>None\<close>
  when it returns \<^verbatim>\<open>NULL\<close>. The result is the returned boolean, the content of
  \<^verbatim>\<open>*retval\<close> and the world.
\<close>

definition gjs_closure_invoke_simple ::
    "JSContext \<Rightarrow> jsval \<Rightarrow> string \<Rightarrow> jsval list option \<Rightarrow> world \<Rightarrow> fault + (bool \<times> jsval \<times> world)" where
  "gjs_closure_invoke_simple cx retval format pushed w =
     (let w1 = emit (PushArguments cx) (JS_BeginRequest cx w)
      in case pushed of
           None \<Rightarrow> Inr (False, retval, w1)
         | Some argv \<Rightarrow>
             let argc = length format;
                 w2 = emit (AddRoot cx) (add_roots argc cx w1)
             in (case gjs_closure_invoke argc argv retval w2 of
                   Inl e \<Rightarrow> Inl e
                 | Inr (rv, w3) \<Rightarrow>
                     Inr (True, rv,
                       JS_EndRequest cx
                         (emit (PopArguments cx)
                           (emit (RemoveRoot cx) (remove_roots argc cx w3))))))"

text \<open>\<^verbatim>\<open>JSContext* gjs_closure_get_context(GClosure *closure)\<close>.\<close>

definition gjs_closure_get_context :: "world \<Rightarrow> JSContext option \<times> world" where
  "gjs_closure_get_context w =
     (let w1 = check_context_valid w in (context' (closure w1), w1))"

text \<open>\<^verbatim>\<open>JSObject* gjs_closure_get_callable(GClosure *closure)\<close>.\<close>

definition gjs_closure_get_callable :: "world \<Rightarrow> JSObject option" where
  "gjs_closure_get_callable w = obj (closure w)"

text \<open>
  \<^verbatim>\<open>GClosure* gjs_closure_new(JSContext *context, JSObject *callable,
  const char *description)\<close>. \<^verbatim>\<open>g_closure_new_simple\<close> hands out zeroed storage with
  a reference count of one. The two notifiers the function registers with GLib are the
  ones \<open>g_closure_invalidate\<close> and \<open>closure_release\<close> run.
\<close>

definition gjs_closure_new :: "JSContext \<Rightarrow> JSObject \<Rightarrow> world \<Rightarrow> world" where
  "gjs_closure_new cx callable w =
     (let w0 = w\<lparr>closure := \<lparr>ref_count = 1, is_invalid = False, runtime = None,
                   context' = None, obj = None, unref_on_global_object_finalized = False\<rparr>,
                 freed := False\<rparr>;
          w1 = w0\<lparr>closure := (closure w0)\<lparr>runtime := Some (runtime_of w0 cx), context' := Some cx\<rparr>\<rparr>;
          w2 = JS_BeginRequest cx w1;
          w3 = w2\<lparr>closure := (closure w2)\<lparr>obj := Some callable,
                   unref_on_global_object_finalized := False\<rparr>\<rparr>;
          w4 = w3\<lparr>closure_counter := closure_counter w3 + 1\<rparr>;
          w5 = gjs_keep_alive_add_global_child cx callable w4
      in JS_EndRequest cx w5)"

subsection \<open>States of the bridge\<close>

text \<open>
  Section 3 of the spec: the triple (callable, context, runtime) is either all non-null
  (Active) or all null (Invalidated).
\<close>

definition triple_null :: "Closure \<Rightarrow> bool" where
  "triple_null c = (runtime c = None \<and> context' c = None \<and> obj c = None)"

definition triple_set :: "Closure \<Rightarrow> bool" where
  "triple_set c = (runtime c \<noteq> None \<and> context' c \<noteq> None \<and> obj c \<noteq> None)"

definition all_or_nothing :: "Closure \<Rightarrow> bool" where
  "all_or_nothing c = (triple_null c \<or> triple_set c)"

text \<open>The stored context is among the live contexts of the stored runtime.\<close>

definition context_live :: "world \<Rightarrow> bool" where
  "context_live w =
     (case runtime (closure w) of
        None \<Rightarrow> False
      | Some rt \<Rightarrow> context' (closure w) \<in> Some ` set (live_contexts w rt))"

text \<open>The stored runtime is there, and the stored context is not among its live contexts.\<close>

definition context_dead :: "world \<Rightarrow> bool" where
  "context_dead w =
     (case runtime (closure w) of
        None \<Rightarrow> False
      | Some rt \<Rightarrow> context' (closure w) \<notin> Some ` set (live_contexts w rt))"

text \<open>The events an operation appended to the trace.\<close>

definition new_events :: "world \<Rightarrow> world \<Rightarrow> event list" where
  "new_events w w' = drop (length (trace w)) (trace w')"

fun is_notify :: "event \<Rightarrow> bool" where
  "is_notify (InvalidateNotify r c f) = True"
| "is_notify _ = False"

text \<open>The triple a notification shows its listeners is all null or all non-null.\<close>

fun snapshot_ok :: "event \<Rightarrow> bool" where
  "snapshot_ok (InvalidateNotify r c f) =
     ((r = None \<and> c = None \<and> f = None) \<or> (r \<noteq> None \<and> c \<noteq> None \<and> f \<noteq> None))"
| "snapshot_ok _ = True"

text \<open>
  The calls into the engine, other than the liveness walk: requests, the dispatch to a
  callable, exception reports, argument pushes, roots, and the calls into the keep-alive
  registry, which reach the context's global object.
\<close>

fun engine_call :: "event \<Rightarrow> bool" where
  "engine_call (BeginRequest c) = True"
| "engine_call (KeepAliveAdd c f) = True"
| "engine_call (KeepAliveRemove c f) = True"
| "engine_call (EndRequest c) = True"
| "engine_call (CallFunction c f n a) = True"
| "engine_call (LogException c e) = True"
| "engine_call (PushArguments c) = True"
| "engine_call (PopArguments c) = True"
| "engine_call (AddRoot c) = True"
| "engine_call (RemoveRoot c) = True"
| "engine_call _ = False"

text \<open>How often the triple was cleared, and how often the invalidate notification fired.\<close>

definition invalidations :: "world \<Rightarrow> nat \<times> nat" where
  "invalidations w = (count_list (trace w) TripleCleared, length (filter is_notify (trace w)))"

subsection \<open>Interleavings\<close>

text \<open>
  What can happen to a bridge, in any order: native callers take and drop references,
  invalidate, invoke and inspect it; the host destroys a context, which leaves the
  runtime's list of live contexts; the collector finalizes the context's global object,
  upon which the keep-alive registry calls the pending notifier with the watched object
  and drops the entry. Touching released storage is undefined in C; the trace records
  it as \<open>UseAfterFree\<close> and the storage is not touched, so a run says nothing about
  the program from that event on. A fault ends in \<open>Aborted\<close>.
\<close>

datatype op =
    Ref
  | Unref
  | Invalidate
  | Invoke nat "jsval list" jsval
  | GetContext
  | GetCallable
  | DestroyContext JSContext
  | GlobalObjectFinalized

fun step :: "op \<Rightarrow> world \<Rightarrow> world" where
  "step (DestroyContext cx) w = w\<lparr>live_contexts := (\<lambda>rt. removeAll cx (live_contexts w rt))\<rparr>"
| "step GlobalObjectFinalized w =
     (case keep_alive w of
        [] \<Rightarrow> w
      | (cx, f) # rest \<Rightarrow>
          let w1 = w\<lparr>keep_alive := rest\<rparr>
          in if freed w1 then emit UseAfterFree w1
             else (case global_context_finalized f w1 of
                     Inl e \<Rightarrow> emit Aborted w1
                   | Inr w2 \<Rightarrow> w2))"
| "step Ref w = (if freed w then emit UseAfterFree w else g_closure_ref w)"
| "step Unref w = (if freed w then emit UseAfterFree w else g_closure_unref w)"
| "step Invalidate w = (if freed w then emit UseAfterFree w else g_closure_invalidate w)"
| "step (Invoke argc argv retval) w =
     (if freed w then emit UseAfterFree w
      else (case gjs_closure_invoke argc argv retval w of
              Inl e \<Rightarrow> emit Aborted w
            | Inr (rv, w') \<Rightarrow> w'))"
| "step GetContext w =
     (if freed w then emit UseAfterFree w else snd (gjs_closure_get_context w))"
| "step GetCallable w = (if freed w then emit UseAfterFree w else w)"

fun run :: "op list \<Rightarrow> world \<Rightarrow> world" where
  "run [] w = w"
| "run (x # xs) w = run xs (step x w)"

text \<open>
  What holds of a bridge between two operations, as long as the operations find its
  storage live: live storage holds a reference; the closure is marked invalid exactly when the callable is
  null; released storage has been invalidated; the triple is all null or all non-null;
  and the triple was cleared, and the notification fired, once if the callable is null
  and never otherwise.
\<close>

definition reach_inv :: "world \<Rightarrow> bool" where
  "reach_inv w =
     ((\<not> freed w \<longrightarrow> 0 < ref_count (closure w))
      \<and> (is_invalid (closure w) = (obj (closure w) = None))
      \<and> (freed w \<longrightarrow> obj (closure w) = None)
      \<and> all_or_nothing (closure w)
      \<and> invalidations w = (if obj (closure w) = None then (1, 1) else (0, 0)))"

text \<open>
  The triple is all null or all non-null, and so was every triple a notification has
  shown its listeners.
\<close>

definition consistent :: "world \<Rightarrow> bool" where
  "consistent w = (all_or_nothing (closure w) \<and> list_all snapshot_ok (trace w))"

text \<open>
  An environment to run examples in: runtime 1 with the live context 7, no pending
  exception, callables that return 0.
\<close>

definition env0 :: world where
  "env0 = \<lparr>closure = \<lparr>ref_count = 0, is_invalid = False, runtime = None, context' = None,
              obj = None, unref_on_global_object_finalized = False\<rparr>,
            freed = True,
            live_contexts = (\<lambda>rt. if rt = 1 then [7] else []),
            runtime_of = (\<lambda>cx. 1),
            keep_alive = [],
            pending = (\<lambda>cx. None),
            behaviour = (\<lambda>f argc argv. Returned 0 None),
            closure_counter = 0,
            trace = []\<rparr>"

text \<open>
  The world \<^verbatim>\<open>closure_invalidated\<close> is entered with when \<^verbatim>\<open>g_closure_invalidate\<close>
  (called by the last unref) finds a fresh bridge whose context 7 has been destroyed:
  GLib has taken its reference, marked the closure invalid and started the notifiers.
\<close>

definition inside_notifier :: world where
  "inside_notifier =
     notify_listeners (mark_invalid (g_closure_ref
       (step (DestroyContext 7) (gjs_closure_new 7 3 env0))))"

text \<open>
  A fresh bridge over context 7 whose callable fails with exception 4, invoked while
  exception 9 is already pending on the context.
\<close>

definition stale_world :: world where
  "stale_world =
     (gjs_closure_new 7 3 env0)
       \<lparr>pending := (\<lambda>cx. if cx = 7 then Some 9 else None),
        behaviour := (\<lambda>f argc argv. Failed (Some 4))\<rparr>"

section \<open>Properties\<close>

subsection \<open>What the mutually recursive functions compute\<close>

lemma context_iterator_finds_set:
  "context_iterator_finds cs c = (c \<in> Some ` set cs)"
  by (induction cs) auto

lemma g_closure_invalidate_marked:
  "is_invalid (closure w) \<Longrightarrow> g_closure_invalidate w = w"
  by (simp add: g_closure_invalidate.simps)

lemma closure_invalidated_null:
  "obj (closure w) = None \<Longrightarrow> closure_invalidated w = w"
  by (simp add: closure_invalidated.simps)

lemma invalidate_js_pointers_eq:
  "invalidate_js_pointers w =
     (if obj (closure w) = None then w
      else if is_invalid (closure w) then clear_triple w
      else closure_release (notify_listeners (mark_invalid (g_closure_ref (clear_triple w)))))"
proof -
  have a: "is_invalid (closure (clear_triple w)) = is_invalid (closure w)"
    by (simp add: clear_triple_def emit_def)
  have b: "obj (closure (notify_listeners (mark_invalid (g_closure_ref (clear_triple w))))) = None"
    by (simp add: clear_triple_def emit_def notify_listeners_def mark_invalid_def g_closure_ref_def)
  show ?thesis
    by (simp add: invalidate_js_pointers.simps [of w] g_closure_invalidate.simps [of "clear_triple w"]
        a closure_invalidated_null [OF b])
qed

lemma check_context_valid_eq:
  "check_context_valid w =
     (case runtime (closure w) of
        None \<Rightarrow> w
      | Some rt \<Rightarrow>
          if context' (closure w) \<in> Some ` set (live_contexts w rt)
          then emit (ContextWalk rt) w
          else if obj (closure w) = None then emit (ContextWalk rt) w
          else if is_invalid (closure w) then clear_triple (emit (ContextWalk rt) w)
          else closure_release (notify_listeners (mark_invalid (g_closure_ref
                 (clear_triple (emit (ContextWalk rt) w))))))"
  by (simp add: check_context_valid.simps [of w] invalidate_js_pointers_eq
      context_iterator_finds_set emit_def split: option.splits)

lemmas prims = emit_def clear_triple_def mark_invalid_def notify_listeners_def g_closure_ref_def
  closure_release_def closure_finalized_def gjs_keep_alive_remove_global_child_def Let_def

lemma check_context_valid_trace:
  "trace (check_context_valid w) = trace w @ new_events w (check_context_valid w)"
  by (simp add: check_context_valid_eq new_events_def prims split: option.splits)

lemma check_context_valid_quiet:
  "\<not> list_ex engine_call (new_events w (check_context_valid w))"
  by (simp add: check_context_valid_eq new_events_def prims split: option.splits)

lemma check_context_valid_env:
  "pending (check_context_valid w) = pending w"
  "behaviour (check_context_valid w) = behaviour w"
  "live_contexts (check_context_valid w) = live_contexts w"
  by (simp_all add: check_context_valid_eq prims split: option.splits)

lemma check_context_valid_noop_events:
  assumes "triple_null (closure w) \<or> context_dead w"
  shows "new_events w (check_context_valid w) =
           (case runtime (closure w) of
              None \<Rightarrow> []
            | Some rt \<Rightarrow>
                ContextWalk rt #
                (if obj (closure w) = None then []
                 else TripleCleared #
                      (if is_invalid (closure w) then []
                       else InvalidateNotify None None None #
                            (if ref_count (closure w) = 0 then [ClosureFinalized] else []))))"
  using assms
  by (auto simp: check_context_valid_eq triple_null_def context_dead_def new_events_def prims
      split: option.splits)

lemma check_context_valid_registry:
  "keep_alive (check_context_valid w) = keep_alive w"
  by (simp add: check_context_valid_eq prims split: option.splits)

lemma check_context_valid_obj_null:
  "triple_null (closure w) \<or> context_dead w \<Longrightarrow> obj (closure (check_context_valid w)) = None"
  by (auto simp: check_context_valid_eq triple_null_def context_dead_def prims split: option.splits)

lemma keep_alive_remove_proj:
  "closure (gjs_keep_alive_remove_global_child c f w) = closure w"
  "trace (gjs_keep_alive_remove_global_child c f w) = trace w @ [KeepAliveRemove c f]"
  "freed (gjs_keep_alive_remove_global_child c f w) = freed w"
  "closure_counter (gjs_keep_alive_remove_global_child c f w) = closure_counter w"
  by (simp_all add: gjs_keep_alive_remove_global_child_def emit_def Let_def split: option.splits)

lemmas prims' = emit_def clear_triple_def mark_invalid_def notify_listeners_def g_closure_ref_def
  closure_release_def closure_finalized_def keep_alive_remove_proj Let_def

lemma closure_invalidated_marked_eq:
  assumes "is_invalid (closure w)" and "runtime (closure w) = Some rt" and "obj (closure w) = Some f"
  shows "closure_invalidated w =
     (if context' (closure w) \<in> Some ` set (live_contexts w rt)
      then clear_triple (gjs_keep_alive_remove_global_child (context' (closure w)) (obj (closure w))
             (emit (ContextWalk rt) w))
      else g_closure_ref ((clear_triple (emit (ContextWalk rt) w))
             \<lparr>closure := (closure (clear_triple (emit (ContextWalk rt) w)))
                \<lparr>unref_on_global_object_finalized := True\<rparr>\<rparr>))"
  using assms
  by (simp add: closure_invalidated.simps [of w] check_context_valid_eq Let_def)
     (simp add: prims)

text \<open>
  The last step of \<open>g_closure_invalidate\<close> is GLib's unref of the reference it took.
  The notifier leaves the closure marked and drops no reference, so that unref is
  \<open>closure_release\<close>: \<open>g_closure_invalidate_glib\<close> below.
\<close>

lemma g_closure_unref_marked:
  "is_invalid (closure w) \<Longrightarrow> 0 < ref_count (closure w) \<Longrightarrow> g_closure_unref w = closure_release w"
  by (simp add: g_closure_unref_def g_closure_invalidate_marked)

lemma closure_invalidated_keeps:
  assumes "is_invalid (closure w)"
  shows "is_invalid (closure (closure_invalidated w))
       \<and> ref_count (closure w) \<le> ref_count (closure (closure_invalidated w))"
proof (cases "obj (closure w)")
  case None
  then show ?thesis
    using assms by (simp add: closure_invalidated_null)
next
  case (Some f)
  show ?thesis
  proof (cases "runtime (closure w)")
    case None
    then have "check_context_valid w = w"
      by (simp add: check_context_valid_eq)
    then show ?thesis
      using assms Some by (simp add: closure_invalidated.simps [of w] prims')
  next
    case (Some rt)
    show ?thesis
      using assms by (simp add: closure_invalidated_marked_eq [OF assms Some \<open>obj (closure w) = Some f\<close>] prims')
  qed
qed

lemma g_closure_invalidate_glib:
  "g_closure_invalidate w =
     (if is_invalid (closure w) then w
      else g_closure_unref
             (closure_invalidated (notify_listeners (mark_invalid (g_closure_ref w)))))"
proof -
  let ?w1 = "notify_listeners (mark_invalid (g_closure_ref w))"
  have m: "is_invalid (closure ?w1)" "0 < ref_count (closure ?w1)"
    by (simp_all add: prims)
  have "is_invalid (closure (closure_invalidated ?w1))"
    "0 < ref_count (closure (closure_invalidated ?w1))"
    using closure_invalidated_keeps [OF m(1)] m(2) by auto
  then show ?thesis
    by (simp add: g_closure_invalidate.simps [of w] g_closure_unref_marked)
qed

subsection \<open>The no-op paths\<close>

text \<open>
  C8. Once the triple of a bridge is cleared, both introspection functions return null:
  \<^verbatim>\<open>gjs_closure_get_context\<close> a null context (and it leaves the bridge as it is),
  \<^verbatim>\<open>gjs_closure_get_callable\<close> a null callable.
\<close>

theorem getters_null_once_invalidated:
  "triple_null (closure w) \<Longrightarrow>
     gjs_closure_get_context w = (None, w) \<and> gjs_closure_get_callable w = None"
  by (simp add: triple_null_def gjs_closure_get_context_def gjs_closure_get_callable_def
      check_context_valid_eq)

theorem getters_null_once_invalidated_witness:
  "triple_null (closure (run [DestroyContext 7, GetContext] (gjs_closure_new 7 3 env0)))
   \<and> gjs_closure_get_context (run [DestroyContext 7, GetContext] (gjs_closure_new 7 3 env0))
       = (None, run [DestroyContext 7, GetContext] (gjs_closure_new 7 3 env0))
   \<and> gjs_closure_get_callable (run [DestroyContext 7, GetContext] (gjs_closure_new 7 3 env0)) = None"
proof -
  have h: "triple_null (closure (run [DestroyContext 7, GetContext] (gjs_closure_new 7 3 env0)))"
    by code_simp
  show ?thesis
    using h getters_null_once_invalidated [OF h] by simp
qed

text \<open>
  C9. When \<^verbatim>\<open>gjs_closure_invoke\<close> is called on a bridge that is already invalidated
  or whose context is dead, it returns with \<^verbatim>\<open>*retval\<close> holding what the caller had
  stored there.
\<close>

theorem invoke_noop_keeps_retval:
  "triple_null (closure w) \<or> context_dead w \<Longrightarrow>
     \<exists>w'. gjs_closure_invoke argc argv retval w = Inr (retval, w')"
  by (simp add: gjs_closure_invoke_def Let_def check_context_valid_obj_null)

theorem invoke_noop_keeps_retval_witness:
  "(triple_null (closure (step (DestroyContext 7) (gjs_closure_new 7 3 env0)))
      \<or> context_dead (step (DestroyContext 7) (gjs_closure_new 7 3 env0)))
   \<and> (\<exists>w'. gjs_closure_invoke 0 [] 5 (step (DestroyContext 7) (gjs_closure_new 7 3 env0))
             = Inr (5, w'))"
proof -
  have h: "context_dead (step (DestroyContext 7) (gjs_closure_new 7 3 env0))"
    by code_simp
  show ?thesis
    using h invoke_noop_keeps_retval [OF disjI2 [OF h], of 0 "[]" 5] by simp
qed

text \<open>
  C4. On a bridge whose triple is null, or whose stored context is no longer among the
  live contexts of its runtime, \<^verbatim>\<open>gjs_closure_invoke\<close> is a benign no-op. It returns
  without a fault and with \<^verbatim>\<open>*retval\<close> as it was. What it appends to the trace is
  nothing on a null triple, and otherwise the liveness walk, followed on a bridge that
  still had its callable by the clearing of the triple and, unless the closure was
  marked invalid before, the notification with a null triple (and the finalization, if
  the storage held no reference). So there is no request, no dispatch to the callable,
  no exception report and no call into the keep-alive registry; the pending-exception
  slots, the registry, the live contexts and the callables are as they were, and the
  bridge has no callable and no context afterwards.
\<close>

theorem invoke_noop_when_invalid:
  assumes "triple_null (closure w) \<or> context_dead w"
  shows "\<exists>w'. gjs_closure_invoke argc argv retval w = Inr (retval, w')
           \<and> trace w' = trace w @ new_events w w'
           \<and> new_events w w' =
               (case runtime (closure w) of
                  None \<Rightarrow> []
                | Some rt \<Rightarrow>
                    ContextWalk rt #
                    (if obj (closure w) = None then []
                     else TripleCleared #
                          (if is_invalid (closure w) then []
                           else InvalidateNotify None None None #
                                (if ref_count (closure w) = 0 then [ClosureFinalized] else []))))
           \<and> \<not> list_ex engine_call (new_events w w')
           \<and> pending w' = pending w
           \<and> keep_alive w' = keep_alive w
           \<and> live_contexts w' = live_contexts w
           \<and> behaviour w' = behaviour w
           \<and> obj (closure w') = None \<and> context' (closure w') = None"
proof -
  let ?w1 = "check_context_valid w"
  let ?w' = "?w1\<lparr>closure := (closure ?w1)\<lparr>context' := None\<rparr>\<rparr>"
  have o: "obj (closure ?w1) = None"
    using assms by (rule check_context_valid_obj_null)
  have r: "gjs_closure_invoke argc argv retval w = Inr (retval, ?w')"
    by (simp add: gjs_closure_invoke_def Let_def o)
  have n: "new_events w ?w' = new_events w ?w1"
    by (simp add: new_events_def)
  have t: "trace ?w' = trace w @ new_events w ?w'"
    using check_context_valid_trace [of w] by (simp add: n)
  have q: "\<not> list_ex engine_call (new_events w ?w')"
    using check_context_valid_quiet [of w] by (simp add: n)
  have e: "new_events w ?w' =
               (case runtime (closure w) of
                  None \<Rightarrow> []
                | Some rt \<Rightarrow>
                    ContextWalk rt #
                    (if obj (closure w) = None then []
                     else TripleCleared #
                          (if is_invalid (closure w) then []
                           else InvalidateNotify None None None #
                                (if ref_count (closure w) = 0 then [ClosureFinalized] else []))))"
    using check_context_valid_noop_events [OF assms] by (simp add: n)
  show ?thesis
    using r t q o e
    by (intro exI [of _ ?w']) (simp add: check_context_valid_env check_context_valid_registry)
qed

theorem invoke_noop_when_invalid_witness:
  "(triple_null (closure (step (DestroyContext 7) (gjs_closure_new 7 3 env0)))
      \<or> context_dead (step (DestroyContext 7) (gjs_closure_new 7 3 env0)))
   \<and> (\<exists>w'. gjs_closure_invoke 2 [1, 2] 5 (step (DestroyContext 7) (gjs_closure_new 7 3 env0))
               = Inr (5, w')
           \<and> new_events (step (DestroyContext 7) (gjs_closure_new 7 3 env0)) w'
               = [ContextWalk 1, TripleCleared, InvalidateNotify None None None]
           \<and> \<not> list_ex engine_call (new_events (step (DestroyContext 7) (gjs_closure_new 7 3 env0)) w')
           \<and> pending w' = pending (step (DestroyContext 7) (gjs_closure_new 7 3 env0))
           \<and> keep_alive w' = [(7, 3)]
           \<and> obj (closure w') = None)
   \<and> (triple_null (closure (run [DestroyContext 7, GetContext, Ref] (gjs_closure_new 7 3 env0)))
      \<or> context_dead (run [DestroyContext 7, GetContext, Ref] (gjs_closure_new 7 3 env0)))
   \<and> (\<exists>w'. gjs_closure_invoke 2 [1, 2] 5
               (run [DestroyContext 7, GetContext, Ref] (gjs_closure_new 7 3 env0)) = Inr (5, w')
           \<and> new_events (run [DestroyContext 7, GetContext, Ref] (gjs_closure_new 7 3 env0)) w' = [])"
proof -
  let ?D = "step (DestroyContext 7) (gjs_closure_new 7 3 env0)"
  let ?N = "run [DestroyContext 7, GetContext, Ref] (gjs_closure_new 7 3 env0)"
  have d: "context_dead ?D" by code_simp
  have c: "closure ?D = \<lparr>ref_count = 1, is_invalid = False, runtime = Some 1, context' = Some 7,
          obj = Some 3, unref_on_global_object_finalized = False\<rparr>" by code_simp
  have k: "keep_alive ?D = [(7, 3)]" by code_simp
  have h: "triple_null (closure ?N)" by code_simp
  have r: "runtime (closure ?N) = None" by code_simp
  have 1: "\<exists>w'. gjs_closure_invoke 2 [1, 2] 5 ?D = Inr (5, w')
           \<and> new_events ?D w' = [ContextWalk 1, TripleCleared, InvalidateNotify None None None]
           \<and> \<not> list_ex engine_call (new_events ?D w')
           \<and> pending w' = pending ?D
           \<and> keep_alive w' = [(7, 3)]
           \<and> obj (closure w') = None"
    using invoke_noop_when_invalid [OF disjI2 [OF d], of 2 "[1, 2]" 5]
    by (simp only: c k) auto
  have 2: "\<exists>w'. gjs_closure_invoke 2 [1, 2] 5 ?N = Inr (5, w') \<and> new_events ?N w' = []"
    using invoke_noop_when_invalid [OF disjI1 [OF h], of 2 "[1, 2]" 5]
    by (simp only: r) auto
  show ?thesis
    using d h 1 2 by (intro conjI disjI1 disjI2)
qed

subsection \<open>Shared facts about the exported functions\<close>

lemma check_context_valid_all_or_nothing:
  "all_or_nothing (closure w) \<Longrightarrow> all_or_nothing (closure (check_context_valid w))"
  by (auto simp: check_context_valid_eq all_or_nothing_def triple_null_def triple_set_def prims
      split: option.splits)

lemma gjs_closure_invoke_returns:
  "all_or_nothing (closure w) \<Longrightarrow> \<exists>rv w'. gjs_closure_invoke argc argv retval w = Inr (rv, w')"
  using check_context_valid_all_or_nothing [of w]
  by (auto simp: gjs_closure_invoke_def Let_def all_or_nothing_def triple_null_def triple_set_def
      split: option.splits prod.splits)

lemma add_roots_closure: "closure (add_roots n cx w) = closure w"
  by (induction n arbitrary: w) (simp_all add: emit_def)

subsection \<open>The convenience wrapper\<close>

text \<open>
  C10. The boolean \<^verbatim>\<open>gjs_closure_invoke_simple\<close> returns tells only whether the
  arguments could be pushed: it is false exactly when \<^verbatim>\<open>JS_PushArgumentsVA\<close> fails,
  and then the function has done nothing but open the request and try the push (the
  closure is not invoked, \<^verbatim>\<open>*retval\<close> is as it was); in every other case it is true,
  whatever the bridge and its callable did. The bridge is any bridge whose triple is all
  null or all non-null.
\<close>

theorem invoke_simple_result:
  assumes "all_or_nothing (closure w)"
  shows "\<exists>rv w'. gjs_closure_invoke_simple cx retval format pushed w = Inr (pushed \<noteq> None, rv, w')
           \<and> (pushed = None \<longrightarrow>
                rv = retval \<and> w' = emit (PushArguments cx) (JS_BeginRequest cx w))"
proof (cases pushed)
  case None
  then show ?thesis
    by (simp add: gjs_closure_invoke_simple_def Let_def)
next
  case (Some argv)
  let ?w2 = "emit (AddRoot cx) (add_roots (length format) cx (emit (PushArguments cx) (JS_BeginRequest cx w)))"
  have "all_or_nothing (closure ?w2)"
    using assms by (simp add: emit_def add_roots_closure JS_BeginRequest_def)
  then obtain rv w3 where "gjs_closure_invoke (length format) argv retval ?w2 = Inr (rv, w3)"
    using gjs_closure_invoke_returns by blast
  with Some show ?thesis
    by (simp add: gjs_closure_invoke_simple_def Let_def)
qed

theorem invoke_simple_result_witness:
  "all_or_nothing (closure (gjs_closure_new 7 3 (env0\<lparr>behaviour := (\<lambda>f argc argv. Failed (Some 4))\<rparr>)))
   \<and> (\<exists>rv w'. gjs_closure_invoke_simple 7 5 ''ii'' (Some [1, 2])
          (gjs_closure_new 7 3 (env0\<lparr>behaviour := (\<lambda>f argc argv. Failed (Some 4))\<rparr>)) = Inr (True, rv, w'))
   \<and> (\<exists>rv w'. gjs_closure_invoke_simple 7 5 ''ii'' None
          (gjs_closure_new 7 3 (env0\<lparr>behaviour := (\<lambda>f argc argv. Failed (Some 4))\<rparr>)) = Inr (False, rv, w'))"
proof -
  have h: "all_or_nothing (closure (gjs_closure_new 7 3 (env0\<lparr>behaviour := (\<lambda>f argc argv. Failed (Some 4))\<rparr>)))"
    by code_simp
  show ?thesis
    using h invoke_simple_result [OF h, of 7 5 "''ii''" "Some [1, 2]"]
      invoke_simple_result [OF h, of 7 5 "''ii''" None]
    by auto
qed

subsection \<open>The liveness re-check\<close>

text \<open>
  C5, as the claim states it, fails where the closure is already marked invalid: the
  check \<^verbatim>\<open>closure_invalidated\<close> makes from inside the invalidate notification finds
  the context dead and clears the triple, and \<^verbatim>\<open>g_closure_invalidate\<close> then fires
  nothing. The first two conjuncts show that the last unref of a bridge over a dead
  context reaches \<^verbatim>\<open>check_context_valid\<close> in the world \<open>inside_notifier\<close>.
\<close>

theorem check_context_valid_silent_counterexample:
  "g_closure_invalidate (step (DestroyContext 7) (gjs_closure_new 7 3 env0))
     = closure_release (closure_invalidated inside_notifier)
   \<and> closure_invalidated inside_notifier
     = g_closure_ref ((check_context_valid inside_notifier)
         \<lparr>closure := (closure (check_context_valid inside_notifier))
            \<lparr>unref_on_global_object_finalized := True\<rparr>\<rparr>)
   \<and> triple_set (closure inside_notifier) \<and> context_dead inside_notifier
   \<and> triple_null (closure (check_context_valid inside_notifier))
   \<and> new_events inside_notifier (check_context_valid inside_notifier)
       = [ContextWalk 1, TripleCleared]"
proof -
  have a: "\<not> is_invalid (closure (step (DestroyContext 7) (gjs_closure_new 7 3 env0)))"
    by code_simp
  have b: "obj (closure inside_notifier) = Some 3"
    by code_simp
  have c: "obj (closure (check_context_valid inside_notifier)) = None"
    by code_simp
  have d: "triple_set (closure inside_notifier)" by code_simp
  have e: "context_dead inside_notifier" by code_simp
  have f: "triple_null (closure (check_context_valid inside_notifier))" by code_simp
  have g: "new_events inside_notifier (check_context_valid inside_notifier)
       = [ContextWalk 1, TripleCleared]" by code_simp
  have 1: "g_closure_invalidate (step (DestroyContext 7) (gjs_closure_new 7 3 env0))
     = closure_release (closure_invalidated inside_notifier)"
    unfolding inside_notifier_def using a
    by (subst g_closure_invalidate.simps) simp
  have 2: "closure_invalidated inside_notifier
     = g_closure_ref ((check_context_valid inside_notifier)
         \<lparr>closure := (closure (check_context_valid inside_notifier))
            \<lparr>unref_on_global_object_finalized := True\<rparr>\<rparr>)"
    using b c by (subst closure_invalidated.simps) (simp add: Let_def)
  show ?thesis
    using 1 2 d e f g by (intro conjI)
qed

text \<open>
  C5, amended. \<^verbatim>\<open>check_context_valid\<close> on a bridge whose triple is null returns at
  once, without a walk and without a change. On a bridge whose triple is set it walks the
  live contexts of the runtime. When the stored context is among them the bridge is
  unchanged and still has its callable. When it is not, the triple is cleared right after
  the walk, and the invalidate notification fires, once and with a null triple, unless
  the closure was already marked invalid: then no notification fires.
\<close>

theorem check_context_valid_liveness:
  "(triple_null (closure w) \<longrightarrow> check_context_valid w = w)
   \<and> (triple_set (closure w) \<and> context_live w \<longrightarrow>
        (\<exists>rt. runtime (closure w) = Some rt \<and> check_context_valid w = emit (ContextWalk rt) w)
        \<and> obj (closure (check_context_valid w)) \<noteq> None)
   \<and> (triple_set (closure w) \<and> context_dead w \<longrightarrow>
        triple_null (closure (check_context_valid w))
        \<and> (\<exists>rt. runtime (closure w) = Some rt
              \<and> take 2 (new_events w (check_context_valid w)) = [ContextWalk rt, TripleCleared])
        \<and> filter is_notify (new_events w (check_context_valid w))
            = (if is_invalid (closure w) then [] else [InvalidateNotify None None None]))"
  by (auto simp: check_context_valid_eq triple_null_def triple_set_def context_live_def
      context_dead_def new_events_def prims split: option.splits)

theorem check_context_valid_liveness_witness:
  "triple_set (closure (step (DestroyContext 7) (gjs_closure_new 7 3 env0)))
   \<and> context_dead (step (DestroyContext 7) (gjs_closure_new 7 3 env0))
   \<and> triple_null (closure (check_context_valid (step (DestroyContext 7) (gjs_closure_new 7 3 env0))))
   \<and> filter is_notify (new_events (step (DestroyContext 7) (gjs_closure_new 7 3 env0))
        (check_context_valid (step (DestroyContext 7) (gjs_closure_new 7 3 env0))))
       = [InvalidateNotify None None None]
   \<and> triple_set (closure (gjs_closure_new 7 3 env0)) \<and> context_live (gjs_closure_new 7 3 env0)
   \<and> obj (closure (check_context_valid (gjs_closure_new 7 3 env0))) \<noteq> None"
proof -
  have a: "triple_set (closure (step (DestroyContext 7) (gjs_closure_new 7 3 env0)))"
    by code_simp
  have b: "context_dead (step (DestroyContext 7) (gjs_closure_new 7 3 env0))"
    by code_simp
  have c: "\<not> is_invalid (closure (step (DestroyContext 7) (gjs_closure_new 7 3 env0)))"
    by code_simp
  have d: "triple_set (closure (gjs_closure_new 7 3 env0))"
    by code_simp
  have e: "context_live (gjs_closure_new 7 3 env0)"
    by code_simp
  show ?thesis
    using a b c d e
      check_context_valid_liveness [of "step (DestroyContext 7) (gjs_closure_new 7 3 env0)"]
      check_context_valid_liveness [of "gjs_closure_new 7 3 env0"]
    by (intro conjI) (simp_all del: step.simps)
qed

subsection \<open>Exceptions of the callable\<close>

lemma stale_fields:
  "closure stale_world = \<lparr>ref_count = 1, is_invalid = False, runtime = Some 1, context' = Some 7,
          obj = Some 3, unref_on_global_object_finalized = False\<rparr>"
  "live_contexts stale_world 1 = [7]"
  "live_contexts stale_world (Suc 0) = [7]"
  "pending stale_world 7 = Some 9"
  "behaviour stale_world 3 0 [] = Failed (Some 4)"
  by code_simp+

text \<open>
  C6, as the claim states it, fails when an exception is already pending on the context
  as \<^verbatim>\<open>gjs_closure_invoke\<close> is entered: the function reports that exception before
  the call and the callable's own after it, two reports in one invocation of a valid
  bridge whose callable raises.
\<close>

theorem stale_exception_counterexample:
  "triple_set (closure stale_world) \<and> context_live stale_world
   \<and> behaviour stale_world 3 0 [] = Failed (Some 4)
   \<and> gjs_closure_invoke 0 [] 5 stale_world
       = Inr (5, stale_world
                  \<lparr>pending := (pending stale_world)(7 := None),
                   trace := trace stale_world
                     @ [ContextWalk 1, BeginRequest 7, LogException 7 9,
                        CallFunction 7 3 0 [], LogException 7 4, EndRequest 7]\<rparr>)"
proof -
  have a: "triple_set (closure stale_world)" by code_simp
  have b: "context_live stale_world" by code_simp
  have c: "check_context_valid stale_world = emit (ContextWalk 1) stale_world"
    by (simp add: check_context_valid_eq stale_fields)
  have d: "gjs_closure_invoke 0 [] 5 stale_world
       = Inr (5, stale_world
                  \<lparr>pending := (pending stale_world)(7 := None),
                   trace := trace stale_world
                     @ [ContextWalk 1, BeginRequest 7, LogException 7 9,
                        CallFunction 7 3 0 [], LogException 7 4, EndRequest 7]\<rparr>)"
    by (simp add: gjs_closure_invoke_def c Let_def emit_def JS_BeginRequest_def JS_EndRequest_def
        JS_IsExceptionPending_def gjs_log_exception_def gjs_call_function_value_def stale_fields)
  show ?thesis
    using a b d by (simp add: stale_fields)
qed

text \<open>
  C6, amended. On a valid bridge (triple set, context live) whose callable raises \<open>e\<close>,
  be it that the engine call fails or that it returns a value and leaves \<open>e\<close> pending,
  \<^verbatim>\<open>gjs_closure_invoke\<close> returns, the exception \<open>e\<close> is reported exactly once, after
  the call, and the pending-exception slot of the context is clear afterwards. An
  exception that was pending on entry is reported once as well, before the call; without
  one, the report of \<open>e\<close> is the only report.
\<close>

theorem raised_exception_reported_once:
  assumes "runtime (closure w) = Some rt" and "context' (closure w) = Some cx"
    and "obj (closure w) = Some f" and "cx \<in> set (live_contexts w rt)"
    and "behaviour w f argc argv = Failed (Some e) \<or> behaviour w f argc argv = Returned v (Some e)"
  shows "\<exists>rv w'. gjs_closure_invoke argc argv retval w = Inr (rv, w')
           \<and> new_events w w' =
               [ContextWalk rt, BeginRequest cx]
               @ (case pending w cx of None \<Rightarrow> [] | Some s \<Rightarrow> [LogException cx s])
               @ [CallFunction cx f argc argv, LogException cx e, EndRequest cx]
           \<and> pending w' cx = None"
proof -
  have c: "check_context_valid w = emit (ContextWalk rt) w"
    using assms(1,2,4) by (simp add: check_context_valid_eq)
  show ?thesis
    using assms(2,3,5)
    by (auto simp: gjs_closure_invoke_def c Let_def emit_def JS_BeginRequest_def JS_EndRequest_def
        JS_IsExceptionPending_def gjs_log_exception_def gjs_call_function_value_def new_events_def
        split: option.splits)
qed

theorem raised_exception_reported_once_witness:
  "runtime (closure stale_world) = Some 1 \<and> context' (closure stale_world) = Some 7
   \<and> obj (closure stale_world) = Some 3 \<and> 7 \<in> set (live_contexts stale_world 1)
   \<and> (behaviour stale_world 3 0 [] = Failed (Some 4) \<or> behaviour stale_world 3 0 [] = Returned 0 (Some 4))
   \<and> (\<exists>rv w'. gjs_closure_invoke 0 [] 5 stale_world = Inr (rv, w')
         \<and> new_events stale_world w' =
             [ContextWalk 1, BeginRequest 7, LogException 7 9, CallFunction 7 3 0 [],
              LogException 7 4, EndRequest 7]
         \<and> pending w' 7 = None)"
proof -
  have a: "runtime (closure stale_world) = Some 1" by code_simp
  have b: "context' (closure stale_world) = Some 7" by code_simp
  have c: "obj (closure stale_world) = Some 3" by code_simp
  have d: "7 \<in> set (live_contexts stale_world 1)" by code_simp
  have e: "behaviour stale_world 3 0 [] = Failed (Some 4) \<or> behaviour stale_world 3 0 [] = Returned 0 (Some 4)"
    by code_simp
  have p: "pending stale_world 7 = Some 9" by code_simp
  show ?thesis
    using a b c d e raised_exception_reported_once [OF a b c d e, of 5] by (simp add: p)
qed

subsection \<open>The order of clearing and notifying\<close>




subsection \<open>The deferred self-reference\<close>

text \<open>
  Where the code does take the deferred reference: an active bridge whose context is
  dead is invalidated through \<^verbatim>\<open>g_closure_invalidate\<close> (the last unref, an explicit
  invalidation). The flag is set, one reference is added, the registry entry stays, and
  the unref that started it does not release the storage. The registry notifier then
  finds the flag, clears it and drops that one reference, and touches nothing else.
\<close>

lemma deferred_reference_from_notifier:
  assumes "triple_set (closure w)" and "\<not> is_invalid (closure w)" and "context_dead w"
    and "0 < ref_count (closure w)"
  shows "unref_on_global_object_finalized (closure (g_closure_invalidate w))
       \<and> ref_count (closure (g_closure_invalidate w)) = ref_count (closure w) + 1
       \<and> triple_null (closure (g_closure_invalidate w))
       \<and> keep_alive (g_closure_invalidate w) = keep_alive w
       \<and> freed (g_closure_unref w) = freed w"
proof -
  obtain rt cx f where t: "runtime (closure w) = Some rt" "context' (closure w) = Some cx"
      "obj (closure w) = Some f"
    using assms(1) by (auto simp: triple_set_def)
  let ?w1 = "notify_listeners (mark_invalid (g_closure_ref w))"
  have g: "g_closure_invalidate w = closure_release (closure_invalidated ?w1)"
    using assms(2) by (simp add: g_closure_invalidate.simps [of w])
  have c: "closure_invalidated ?w1 =
     (if context' (closure ?w1) \<in> Some ` set (live_contexts ?w1 rt)
      then clear_triple (gjs_keep_alive_remove_global_child (context' (closure ?w1)) (obj (closure ?w1))
             (emit (ContextWalk rt) ?w1))
      else g_closure_ref ((clear_triple (emit (ContextWalk rt) ?w1))
             \<lparr>closure := (closure (clear_triple (emit (ContextWalk rt) ?w1)))
                \<lparr>unref_on_global_object_finalized := True\<rparr>\<rparr>))"
    using t by (intro closure_invalidated_marked_eq) (simp_all add: prims)
  have d: "context' (closure w) \<notin> Some ` set (live_contexts w rt)"
    using assms(3) t by (simp add: context_dead_def)
  show ?thesis
    unfolding g_closure_unref_def g c using assms(2,4) t d
    by (simp add: triple_null_def prims')
qed

lemma notifier_releases_deferred_reference:
  assumes "obj (closure w) = None" and "is_invalid (closure w)"
    and "unref_on_global_object_finalized (closure w)" and "0 < ref_count (closure w)"
  shows "global_context_finalized ob w
           = Inr (closure_release (w\<lparr>closure := (closure w)\<lparr>unref_on_global_object_finalized := False\<rparr>\<rparr>))"
  using assms
  by (simp add: global_context_finalized_def g_closure_unref_def g_closure_invalidate_marked Let_def)

text \<open>
  C1 does not hold of the code. The bridge over context 7 is fresh and holds one
  reference; context 7 has left the runtime's list and the registry entry is pending.
  \<^verbatim>\<open>gjs_closure_invoke\<close> finds the context dead and clears the triple, and the notifier
  \<^verbatim>\<open>closure_invalidated\<close>, run by the notification, returns at its first test because
  the callable is already null: the flag stays false, the count stays one and the entry
  stays pending. The last unref then releases the storage with the entry still pending,
  so the registry notifier arrives on released storage. When the same dead context is
  found from inside \<^verbatim>\<open>closure_invalidated\<close> (last two conjuncts: the unref comes first),
  the flag is set and the reference is taken.
\<close>

theorem lazy_invalidation_takes_no_reference:
  "context_dead (step (DestroyContext 7) (gjs_closure_new 7 3 env0))
   \<and> closure (step (DestroyContext 7) (gjs_closure_new 7 3 env0))
       = \<lparr>ref_count = 1, is_invalid = False, runtime = Some 1, context' = Some 7,
          obj = Some 3, unref_on_global_object_finalized = False\<rparr>
   \<and> map_sum id (\<lambda>r. (closure (snd r), keep_alive (snd r), freed (snd r)))
        (gjs_closure_invoke 0 [] 5 (step (DestroyContext 7) (gjs_closure_new 7 3 env0)))
       = Inr (\<lparr>ref_count = 1, is_invalid = True, runtime = None, context' = None,
                obj = None, unref_on_global_object_finalized = False\<rparr>, [(7, 3)], False)
   \<and> freed (run [DestroyContext 7, Invoke 0 [] 5, Unref] (gjs_closure_new 7 3 env0))
   \<and> keep_alive (run [DestroyContext 7, Invoke 0 [] 5, Unref] (gjs_closure_new 7 3 env0)) = [(7, 3)]
   \<and> last (trace (run [DestroyContext 7, Invoke 0 [] 5, Unref, GlobalObjectFinalized]
                      (gjs_closure_new 7 3 env0))) = UseAfterFree
   \<and> closure (run [DestroyContext 7, Unref] (gjs_closure_new 7 3 env0))
       = \<lparr>ref_count = 1, is_invalid = True, runtime = None, context' = None,
          obj = None, unref_on_global_object_finalized = True\<rparr>
   \<and> \<not> freed (run [DestroyContext 7, Unref] (gjs_closure_new 7 3 env0))"
  by code_simp

subsection \<open>Every interleaving invalidates once\<close>

lemma invalidations_emit:
  "invalidations (emit e w) =
     (fst (invalidations w) + (if e = TripleCleared then 1 else 0),
      snd (invalidations w) + (if is_notify e then 1 else 0))"
  by (simp add: invalidations_def emit_def)

lemma reach_inv_check:
  assumes "reach_inv w" and "\<not> freed w"
  shows "reach_inv (check_context_valid w) \<and> \<not> freed (check_context_valid w)"
  using assms
  by (auto simp: reach_inv_def check_context_valid_eq invalidations_def all_or_nothing_def
      triple_null_def triple_set_def prims split: option.splits)

lemma reach_inv_invalidate:
  assumes "reach_inv w" and "\<not> freed w"
  shows "reach_inv (g_closure_invalidate w) \<and> \<not> freed (g_closure_invalidate w)
       \<and> obj (closure (g_closure_invalidate w)) = None
       \<and> ref_count (closure w) \<le> ref_count (closure (g_closure_invalidate w))"
proof (cases "is_invalid (closure w)")
  case True
  then show ?thesis
    using assms by (simp add: g_closure_invalidate_marked reach_inv_def)
next
  case False
  then obtain rt cx f where t: "runtime (closure w) = Some rt" "context' (closure w) = Some cx"
      "obj (closure w) = Some f"
    using assms(1) by (auto simp: reach_inv_def all_or_nothing_def triple_null_def triple_set_def)
  let ?w1 = "notify_listeners (mark_invalid (g_closure_ref w))"
  have g: "g_closure_invalidate w = closure_release (closure_invalidated ?w1)"
    using False by (simp add: g_closure_invalidate.simps [of w])
  have c: "closure_invalidated ?w1 =
     (if context' (closure ?w1) \<in> Some ` set (live_contexts ?w1 rt)
      then clear_triple (gjs_keep_alive_remove_global_child (context' (closure ?w1)) (obj (closure ?w1))
             (emit (ContextWalk rt) ?w1))
      else g_closure_ref ((clear_triple (emit (ContextWalk rt) ?w1))
             \<lparr>closure := (closure (clear_triple (emit (ContextWalk rt) ?w1)))
                \<lparr>unref_on_global_object_finalized := True\<rparr>\<rparr>))"
    using t by (intro closure_invalidated_marked_eq) (simp_all add: prims)
  show ?thesis
    unfolding g c using assms False t
    by (simp add: reach_inv_def invalidations_def all_or_nothing_def triple_null_def
        triple_set_def prims')
qed

lemma reach_inv_release:
  assumes "reach_inv w" and "\<not> freed w" 
    and "ref_count (closure w) = 1 \<longrightarrow> obj (closure w) = None"
  shows "reach_inv (closure_release w)"
  using assms
  by (auto simp: reach_inv_def invalidations_def all_or_nothing_def triple_null_def
      triple_set_def prims)

lemma reach_inv_unref:
  assumes "reach_inv w" and "\<not> freed w"
  shows "reach_inv (g_closure_unref w)"
proof (cases "ref_count (closure w) = 1")
  case True
  then show ?thesis
    using reach_inv_invalidate [OF assms] assms
    by (auto simp: g_closure_unref_def intro!: reach_inv_release)
next
  case False
  then show ?thesis
    using assms by (auto simp: g_closure_unref_def intro!: reach_inv_release)
qed


lemma reach_inv_ignores:
  "closure w' = closure w \<Longrightarrow> freed w' = freed w \<Longrightarrow> invalidations w' = invalidations w
     \<Longrightarrow> reach_inv w' = reach_inv w"
  by (simp add: reach_inv_def)

lemma gjs_closure_invoke_active:
  assumes "obj (closure (check_context_valid w)) = Some f"
    and "context' (closure (check_context_valid w)) = Some cx"
  shows "\<exists>rv w'. gjs_closure_invoke argc argv retval w = Inr (rv, w')
           \<and> closure w' = closure (check_context_valid w)
           \<and> freed w' = freed (check_context_valid w)
           \<and> invalidations w' = invalidations (check_context_valid w)
           \<and> list_all snapshot_ok (new_events (check_context_valid w) w')
           \<and> trace w' = trace (check_context_valid w) @ new_events (check_context_valid w) w'"
  using assms
  by (auto simp: gjs_closure_invoke_def Let_def JS_BeginRequest_def JS_EndRequest_def
      JS_IsExceptionPending_def gjs_log_exception_def gjs_call_function_value_def
      invalidations_def emit_def new_events_def
      split: option.splits call_outcome.splits)

lemma reach_inv_invoke:
  assumes "reach_inv w" and "\<not> freed w"
  shows "\<exists>rv w'. gjs_closure_invoke argc argv retval w = Inr (rv, w') \<and> reach_inv w'"
proof -
  let ?w1 = "check_context_valid w"
  have r: "reach_inv ?w1"
    using reach_inv_check [OF assms] by simp
  show ?thesis
  proof (cases "obj (closure ?w1)")
    case None
    then have "context' (closure ?w1) = None"
      using r by (auto simp: reach_inv_def all_or_nothing_def triple_null_def triple_set_def)
    then have "?w1\<lparr>closure := (closure ?w1)\<lparr>context' := None\<rparr>\<rparr> = ?w1"
      by simp
    then show ?thesis
      using None r by (simp add: gjs_closure_invoke_def Let_def)
  next
    case (Some f)
    then obtain cx where cx: "context' (closure ?w1) = Some cx"
      using r by (auto simp: reach_inv_def all_or_nothing_def triple_null_def triple_set_def)
    from gjs_closure_invoke_active [OF Some cx, of argc argv retval]
    obtain rv w' where "gjs_closure_invoke argc argv retval w = Inr (rv, w')"
      and "closure w' = closure ?w1" and "freed w' = freed ?w1"
      and "invalidations w' = invalidations ?w1"
      by blast
    then show ?thesis
      using r reach_inv_ignores [of w' ?w1] by auto
  qed
qed

lemma reach_inv_emit_other:
  "reach_inv (emit UseAfterFree w) = reach_inv w"
  "reach_inv (emit Aborted w) = reach_inv w"
  by (simp_all add: reach_inv_def invalidations_def emit_def)

lemma reach_inv_pointers:
  assumes "reach_inv w" and "\<not> freed w"
  shows "reach_inv (invalidate_js_pointers w) \<and> \<not> freed (invalidate_js_pointers w)"
  using assms
  by (auto simp: invalidate_js_pointers_eq reach_inv_def invalidations_def all_or_nothing_def
      triple_null_def triple_set_def prims)

lemma reach_inv_finalized:
  assumes "reach_inv w" and "\<not> freed w"
  shows "case global_context_finalized ob w of Inl e \<Rightarrow> True | Inr w' \<Rightarrow> reach_inv w'"
proof -
  let ?w1 = "w\<lparr>closure := (closure w)\<lparr>unref_on_global_object_finalized := False\<rparr>\<rparr>"
  have r1: "reach_inv ?w1" "\<not> freed ?w1"
    using assms by (simp_all add: reach_inv_def invalidations_def all_or_nothing_def
        triple_null_def triple_set_def)
  have p: "reach_inv (invalidate_js_pointers ?w1)" "\<not> freed (invalidate_js_pointers ?w1)"
    using reach_inv_pointers [OF r1] by simp_all
  have u1: "reach_inv (g_closure_unref ?w1)"
    using r1 by (rule reach_inv_unref)
  have u2: "reach_inv (g_closure_unref (invalidate_js_pointers ?w1))"
    using p by (rule reach_inv_unref)
  show ?thesis
    using r1 p u1 u2 by (auto simp: global_context_finalized_def Let_def)
qed

lemma reach_inv_step:
  assumes "reach_inv w"
  shows "reach_inv (step op w)"
proof (cases op)
  case Ref
  then show ?thesis
    using assms by (auto simp: reach_inv_def invalidations_def all_or_nothing_def
        triple_null_def triple_set_def prims)
next
  case Unref
  then show ?thesis
    using assms reach_inv_unref [OF assms]
    by (auto simp: reach_inv_emit_other)
next
  case Invalidate
  then show ?thesis
    using assms reach_inv_invalidate [OF assms]
    by (auto simp: reach_inv_emit_other)
next
  case (Invoke argc argv retval)
  then show ?thesis
    using assms reach_inv_invoke [OF assms, of argc argv retval]
    by (auto simp: reach_inv_emit_other)
next
  case GetContext
  then show ?thesis
    using assms reach_inv_check [OF assms]
    by (auto simp: gjs_closure_get_context_def Let_def reach_inv_emit_other)
next
  case GetCallable
  then show ?thesis
    using assms
    by (auto simp: reach_inv_emit_other)
next
  case (DestroyContext cx)
  then show ?thesis
    using assms by (simp add: reach_inv_def invalidations_def)
next
  case GlobalObjectFinalized
  show ?thesis
  proof (cases "keep_alive w")
    case Nil
    then show ?thesis
      using assms GlobalObjectFinalized by simp
  next
    case (Cons p rest)
    obtain cx f where p: "p = (cx, f)"
      by (cases p)
    let ?w1 = "w\<lparr>keep_alive := rest\<rparr>"
    have r1: "reach_inv ?w1"
      using assms by (simp add: reach_inv_def invalidations_def)
    have u: "reach_inv (emit UseAfterFree ?w1)" "reach_inv (emit Aborted ?w1)"
      using r1 by (simp_all add: reach_inv_emit_other)
    show ?thesis
    proof (cases "freed w")
      case True
      then show ?thesis
        using GlobalObjectFinalized Cons p u by simp
    next
      case False
      then have "\<not> freed ?w1"
        by simp
      from reach_inv_finalized [OF r1 this, of f] show ?thesis
        using GlobalObjectFinalized Cons p u False
        by (auto split: sum.splits)
    qed
  qed
qed

lemma reach_inv_run:
  "reach_inv w \<Longrightarrow> reach_inv (run ops w)"
  by (induction ops arbitrary: w) (simp_all add: reach_inv_step)

lemma reach_inv_new:
  "trace w0 = [] \<Longrightarrow> reach_inv (gjs_closure_new cx f w0)"
  by (simp add: gjs_closure_new_def reach_inv_def invalidations_def all_or_nothing_def
      triple_set_def JS_BeginRequest_def JS_EndRequest_def gjs_keep_alive_add_global_child_def
      emit_def Let_def)


lemma null_step:
  assumes "reach_inv w" and "obj (closure w) = None"
  shows "triple_null (closure (step op w)) \<and> invalidations (step op w) = invalidations w"
proof -
  have n: "triple_null (closure w)" "is_invalid (closure w)" "runtime (closure w) = None"
    "context' (closure w) = None"
    using assms by (auto simp: reach_inv_def all_or_nothing_def triple_null_def triple_set_def)
  have c: "check_context_valid w = w"
    using n by (simp add: check_context_valid_eq)
  have i: "g_closure_invalidate w = w"
    using n by (simp add: g_closure_invalidate_marked)
  have u: "triple_null (closure (g_closure_unref w)) \<and> invalidations (g_closure_unref w) = invalidations w"
    using n assms(2) by (simp add: g_closure_unref_def i triple_null_def invalidations_def prims)
  show ?thesis
  proof (cases op)
    case GlobalObjectFinalized
    let ?w1 = "\<lambda>rest. w\<lparr>keep_alive := rest, closure := (closure w)\<lparr>unref_on_global_object_finalized := False\<rparr>\<rparr>"
    have i1: "\<And>rest. g_closure_invalidate (?w1 rest) = ?w1 rest"
      using n by (simp add: g_closure_invalidate_marked)
    have "\<And>rest. triple_null (closure (g_closure_unref (?w1 rest)))
        \<and> invalidations (g_closure_unref (?w1 rest)) = invalidations w"
      using n assms(2) by (simp add: g_closure_unref_def i1 triple_null_def invalidations_def prims)
    then show ?thesis
      using GlobalObjectFinalized n assms(2)
      by (auto simp: global_context_finalized_def Let_def invalidations_def emit_def triple_null_def
          split: list.splits)
  qed (use n assms(2) c i u in \<open>auto simp: gjs_closure_invoke_def gjs_closure_get_context_def
        invalidations_def prims triple_null_def\<close>)
qed

text \<open>
  Each trigger invalidates: the unref that drops the last reference, the registry
  notifier (when its assertion holds), and, by \<open>check_context_valid_obj_null\<close>, the
  liveness check that finds the context dead.
\<close>

lemma g_closure_unref_keeps_null:
  assumes "obj (closure w) = None"
  shows "obj (closure (g_closure_unref w)) = None"
proof -
  have n: "obj (closure (notify_listeners (mark_invalid (g_closure_ref w)))) = None"
    using assms by (simp add: prims)
  have "g_closure_invalidate w =
      (if is_invalid (closure w) then w
       else closure_release (notify_listeners (mark_invalid (g_closure_ref w))))"
    by (simp add: g_closure_invalidate.simps [of w] closure_invalidated_null [OF n])
  then have "obj (closure (g_closure_invalidate w)) = None"
    using assms by (simp add: prims)
  then show ?thesis
    using assms by (simp add: g_closure_unref_def prims)
qed

lemma unref_to_zero_invalidates:
  assumes "reach_inv w" and "\<not> freed w" and "ref_count (closure w) = 1"
  shows "obj (closure (g_closure_unref w)) = None"
  using reach_inv_invalidate [OF assms(1,2)] assms(3)
  by (simp add: g_closure_unref_def prims)

lemma registry_notifier_invalidates:
  assumes "obj (closure w) = None \<or> obj (closure w) = Some ob"
  shows "\<exists>w'. global_context_finalized ob w = Inr w' \<and> obj (closure w') = None"
proof -
  let ?w1 = "w\<lparr>closure := (closure w)\<lparr>unref_on_global_object_finalized := False\<rparr>\<rparr>"
  have p: "obj (closure (invalidate_js_pointers ?w1)) = None"
    by (simp add: invalidate_js_pointers_eq prims)
  have u1: "obj (closure ?w1) = None \<Longrightarrow> obj (closure (g_closure_unref ?w1)) = None"
    by (rule g_closure_unref_keeps_null)
  have u2: "obj (closure (g_closure_unref (invalidate_js_pointers ?w1))) = None"
    using p by (rule g_closure_unref_keeps_null)
  show ?thesis
    using assms p u1 u2 by (auto simp: global_context_finalized_def Let_def)
qed

text \<open>
  As long as no operation is delivered to released storage and no assertion aborts, the
  count is right: along any sequence of operations from \<^verbatim>\<open>gjs_closure_new\<close> the triple
  has been cleared once and the notification fired once if the callable is null, and
  neither has happened otherwise; released storage has been invalidated; and on a bridge
  whose callable is null a further operation clears and notifies nothing more.
\<close>

lemma invalidation_once_on_live_storage:
  assumes "trace w0 = []"
    and "UseAfterFree \<notin> set (trace (step op (run ops (gjs_closure_new cx f w0))))"
    and "Aborted \<notin> set (trace (step op (run ops (gjs_closure_new cx f w0))))"
  shows "invalidations (run ops (gjs_closure_new cx f w0))
           = (if obj (closure (run ops (gjs_closure_new cx f w0))) = None then (1, 1) else (0, 0))
       \<and> (freed (run ops (gjs_closure_new cx f w0))
            \<longrightarrow> obj (closure (run ops (gjs_closure_new cx f w0))) = None)
       \<and> (obj (closure (run ops (gjs_closure_new cx f w0))) = None
            \<longrightarrow> triple_null (closure (step op (run ops (gjs_closure_new cx f w0))))
              \<and> invalidations (step op (run ops (gjs_closure_new cx f w0))) = (1, 1))"
proof -
  let ?w = "run ops (gjs_closure_new cx f w0)"
  have r: "reach_inv ?w"
    using assms(1) by (intro reach_inv_run reach_inv_new)
  show ?thesis
    using r null_step [OF r, of op] by (auto simp: reach_inv_def)
qed

text \<open>
  C2 does not hold of the code, by the defect of C1. The context of a fresh bridge is
  torn down and the teardown is noticed by \<^verbatim>\<open>gjs_closure_invoke\<close>, which clears the
  triple and fires the notification, once each, but takes no reference and leaves the
  registry entry pending. The unref to zero then releases the storage. The third
  trigger, the registry notifier, arrives after the triple is null and on released
  storage, where \<^verbatim>\<open>global_context_finalized\<close> reads the flag and the callable and
  writes the flag: from there on nothing the interleaving does is defined.
\<close>

theorem trigger_on_released_storage:
  "trace (run [DestroyContext 7, Invoke 0 [] 5] (gjs_closure_new 7 3 env0))
     = [BeginRequest 7, KeepAliveAdd 7 3, EndRequest 7,
        ContextWalk 1, TripleCleared, InvalidateNotify None None None]
   \<and> triple_null (closure (run [DestroyContext 7, Invoke 0 [] 5] (gjs_closure_new 7 3 env0)))
   \<and> \<not> freed (run [DestroyContext 7, Invoke 0 [] 5] (gjs_closure_new 7 3 env0))
   \<and> freed (run [DestroyContext 7, Invoke 0 [] 5, Unref] (gjs_closure_new 7 3 env0))
   \<and> keep_alive (run [DestroyContext 7, Invoke 0 [] 5, Unref] (gjs_closure_new 7 3 env0)) = [(7, 3)]
   \<and> trace (run [DestroyContext 7, Invoke 0 [] 5, Unref, GlobalObjectFinalized]
               (gjs_closure_new 7 3 env0))
     = [BeginRequest 7, KeepAliveAdd 7 3, EndRequest 7,
        ContextWalk 1, TripleCleared, InvalidateNotify None None None,
        ClosureFinalized, UseAfterFree]"
  by code_simp

subsection \<open>The triple is all null or all non-null\<close>

lemma consistent_prims:
  "consistent (closure_release w) = consistent w"
  "consistent (g_closure_ref w) = consistent w"
  "consistent (mark_invalid w) = consistent w"
  "consistent (w\<lparr>closure := (closure w)\<lparr>unref_on_global_object_finalized := b\<rparr>\<rparr>) = consistent w"
  "snapshot_ok e \<Longrightarrow> consistent (emit e w) = consistent w"
  "consistent (gjs_keep_alive_remove_global_child c f w) = consistent w"
  by (simp_all add: consistent_def all_or_nothing_def triple_null_def triple_set_def prims')

lemma consistent_notify:
  "consistent w \<Longrightarrow> consistent (notify_listeners w)"
  by (auto simp: consistent_def all_or_nothing_def triple_null_def triple_set_def prims)

lemma consistent_clear:
  "consistent w \<Longrightarrow> consistent (clear_triple w)"
  by (simp add: consistent_def all_or_nothing_def triple_null_def triple_set_def prims)

lemma consistent_pointers:
  "consistent w \<Longrightarrow> consistent (invalidate_js_pointers w)"
  by (simp add: invalidate_js_pointers_eq consistent_prims consistent_notify consistent_clear)

lemma consistent_check:
  "consistent w \<Longrightarrow> consistent (check_context_valid w)"
  by (simp add: check_context_valid_eq consistent_prims consistent_notify consistent_clear
      split: option.splits)

lemma consistent_invalidated:
  assumes "consistent w"
  shows "consistent (closure_invalidated w)"
proof (cases "obj (closure w) = None")
  case True
  then show ?thesis
    using assms by (simp add: closure_invalidated_null)
next
  case False
  have c: "consistent (check_context_valid w)"
    using assms by (rule consistent_check)
  show ?thesis
    using False c
    by (auto simp: closure_invalidated.simps [of w] Let_def consistent_prims consistent_clear)
qed

lemma consistent_invalidate:
  "consistent w \<Longrightarrow> consistent (g_closure_invalidate w)"
  by (simp add: g_closure_invalidate.simps [of w] consistent_prims consistent_notify
      consistent_invalidated)

lemma consistent_unref:
  "consistent w \<Longrightarrow> consistent (g_closure_unref w)"
  by (simp add: g_closure_unref_def consistent_prims consistent_invalidate)

lemma consistent_invoke:
  assumes "consistent w"
  shows "\<exists>rv w'. gjs_closure_invoke argc argv retval w = Inr (rv, w') \<and> consistent w'"
proof -
  let ?w1 = "check_context_valid w"
  have r: "consistent ?w1"
    using assms by (rule consistent_check)
  show ?thesis
  proof (cases "obj (closure ?w1)")
    case None
    then have "context' (closure ?w1) = None"
      using r by (auto simp: consistent_def all_or_nothing_def triple_null_def triple_set_def)
    then have "?w1\<lparr>closure := (closure ?w1)\<lparr>context' := None\<rparr>\<rparr> = ?w1"
      by simp
    then show ?thesis
      using None r by (simp add: gjs_closure_invoke_def Let_def)
  next
    case (Some f)
    then obtain cx where cx: "context' (closure ?w1) = Some cx"
      using r by (auto simp: consistent_def all_or_nothing_def triple_null_def triple_set_def)
    from gjs_closure_invoke_active [OF Some cx, of argc argv retval]
    obtain rv w' where "gjs_closure_invoke argc argv retval w = Inr (rv, w')"
      and "closure w' = closure ?w1"
      and "list_all snapshot_ok (new_events ?w1 w')"
      and "trace w' = trace ?w1 @ new_events ?w1 w'"
      by blast
    then show ?thesis
      using r by (auto simp: consistent_def)
  qed
qed

lemma consistent_new:
  "list_all snapshot_ok (trace w) \<Longrightarrow> consistent (gjs_closure_new cx callable w)"
  by (simp add: gjs_closure_new_def consistent_def all_or_nothing_def
      triple_set_def JS_BeginRequest_def JS_EndRequest_def gjs_keep_alive_add_global_child_def
      emit_def Let_def)

text \<open>
  C3. Every operation of the bridge takes a bridge whose triple is all null or all
  non-null to one whose triple is all null or all non-null again: creation, invocation
  (which returns without a fault), the liveness check, the invalidate notifier and the
  GLib calls that run it, the registry notifier (unless its assertion aborts the
  process, when the watched object is not the stored callable) and the getter of the
  context; the getter of the callable only reads. The triple that a notification fired
  by any of them shows to its listeners, who may call back into the bridge, is all null
  or all non-null as well.
\<close>

theorem triple_all_or_nothing:
  assumes "consistent w"
  shows "consistent (gjs_closure_new cx callable w)
       \<and> (\<exists>rv w'. gjs_closure_invoke argc argv retval w = Inr (rv, w') \<and> consistent w')
       \<and> consistent (check_context_valid w)
       \<and> consistent (closure_invalidated w)
       \<and> consistent (g_closure_invalidate w)
       \<and> consistent (g_closure_unref w)
       \<and> (case global_context_finalized ob w of
             Inl e \<Rightarrow> obj (closure w) \<noteq> None \<and> obj (closure w) \<noteq> Some ob
           | Inr w' \<Rightarrow> consistent w')
       \<and> consistent (snd (gjs_closure_get_context w))
       \<and> gjs_closure_get_callable w = obj (closure w)"
proof -
  have n: "consistent (gjs_closure_new cx callable w)"
    using assms by (intro consistent_new) (simp add: consistent_def)
  let ?w1 = "w\<lparr>closure := (closure w)\<lparr>unref_on_global_object_finalized := False\<rparr>\<rparr>"
  have r1: "consistent ?w1"
    using assms by (simp add: consistent_prims)
  have g: "case global_context_finalized ob w of
             Inl e \<Rightarrow> obj (closure w) \<noteq> None \<and> obj (closure w) \<noteq> Some ob
           | Inr w' \<Rightarrow> consistent w'"
    using r1 consistent_pointers [OF r1] consistent_unref [OF r1]
      consistent_unref [OF consistent_pointers [OF r1]]
    by (auto simp: global_context_finalized_def Let_def)
  show ?thesis
    using assms n g consistent_invoke [OF assms, of argc argv retval]
    by (simp add: consistent_check consistent_invalidated consistent_invalidate consistent_unref
        gjs_closure_get_context_def gjs_closure_get_callable_def Let_def)
qed

theorem triple_all_or_nothing_witness:
  "consistent (step (DestroyContext 7) (gjs_closure_new 7 3 env0))
   \<and> consistent (check_context_valid (step (DestroyContext 7) (gjs_closure_new 7 3 env0)))
   \<and> consistent (g_closure_unref (step (DestroyContext 7) (gjs_closure_new 7 3 env0)))
   \<and> trace (g_closure_unref (step (DestroyContext 7) (gjs_closure_new 7 3 env0)))
       = [BeginRequest 7, KeepAliveAdd 7 3, EndRequest 7,
          InvalidateNotify (Some 1) (Some 7) (Some 3), ContextWalk 1, TripleCleared]"
proof -
  have h: "consistent (step (DestroyContext 7) (gjs_closure_new 7 3 env0))"
    by code_simp
  have t: "trace (g_closure_unref (step (DestroyContext 7) (gjs_closure_new 7 3 env0)))
       = [BeginRequest 7, KeepAliveAdd 7 3, EndRequest 7,
          InvalidateNotify (Some 1) (Some 7) (Some 3), ContextWalk 1, TripleCleared]"
    by code_simp
  show ?thesis
    using h t triple_all_or_nothing [OF h, of 7 3 0 "[]" 5 3]
    by (intro conjI) (simp_all del: step.simps)
qed

end
